theory Spec2Isabelle
  imports Main "HOL-Library.Word"
begin

unbundle bit_operations_syntax

section \<open>Schnorr signatures over an elliptic curve: the model of \<^verbatim>\<open>pkg/schnorr/schnorr.go\<close>\<close>

subsection \<open>Values, errors and the external interfaces\<close>

text \<open>
  Go's \<^verbatim>\<open>*big.Int\<close> is an unbounded integer (\<^typ>\<open>int\<close>), a byte slice is a list of
  8-bit words, a curve point is the pair of its affine coordinates, and the point at
  infinity is \<open>(0, 0)\<close> as in \<^verbatim>\<open>crypto/elliptic\<close>.
\<close>

type_synonym byte = "8 word"
type_synonym point = "int \<times> int"

text \<open>
  The errors are \<^verbatim>\<open>fmt.Errorf\<close> strings in the source. Each constructor stands for the
  messages given beside it.
\<close>

datatype error =
    InvalidKeyRangeError   \<comment> \<open>"private key must be an integer between 1 and N", "private key is not in the range 1..n-1"\<close>
  | ZeroNonceError         \<comment> \<open>"k0 is zero"\<close>
  | PointDecodeError       \<comment> \<open>"px or py was unmarshalled to nil"\<close>
  | NotOnCurveError        \<comment> \<open>"px and py are not on the curve"\<close>
  | RangeError             \<comment> \<open>"r is larger or equal to the field size", "s is larger than or equal to curve order N"\<close>
  | ZeroPointError         \<comment> \<open>"sign with r[x|y] is 0 indicating the result is 0"\<close>
  | JacobiMismatchError    \<comment> \<open>"failed to validate the jacobi symbol"\<close>
  | RValueMismatchError    \<comment> \<open>"r and rx do not match"\<close>
  | EmptyKeySetError       \<comment> \<open>"no private keys supplied"\<close>

text \<open>
  A call returns a value, returns an error, or panics (an index or a slice bound out of
  range).
\<close>

datatype 'a result = Ok 'a | Err error | Panic

text \<open>
  \<^verbatim>\<open>var Curve = btcec.S256()\<close> is a value of the interface \<^verbatim>\<open>elliptic.Curve\<close>, and
  \<^verbatim>\<open>Marshal\<close> and \<^verbatim>\<open>Unmarshal\<close> take such a value as an argument. The library behind
  the interface is not part of the repository, so the curve is a record of the
  interface's parameters and methods, passed to every operation.
\<close>

record curve =
  P :: int                                       \<comment> \<open>\<^verbatim>\<open>Params().P\<close>, the order of the field\<close>
  N :: int                                       \<comment> \<open>\<^verbatim>\<open>Params().N\<close>, the order of the base point\<close>
  BitSize :: nat                                 \<comment> \<open>\<^verbatim>\<open>Params().BitSize\<close>\<close>
  G :: point                                     \<comment> \<open>\<^verbatim>\<open>Params().Gx, Gy\<close>, the base point\<close>
  IsOnCurve :: "int \<Rightarrow> int \<Rightarrow> bool"
  Add :: "point \<Rightarrow> point \<Rightarrow> point"
  ScalarMult :: "point \<Rightarrow> byte list \<Rightarrow> point"
  ScalarBaseMult :: "byte list \<Rightarrow> point"

text \<open>\<^verbatim>\<open>sha256.Sum256\<close> is an argument \<open>H\<close> of the operations that hash.\<close>

type_synonym hash = "byte list \<Rightarrow> byte list"

subsection \<open>\<^verbatim>\<open>math/big\<close>\<close>

text \<open>\<^verbatim>\<open>(*Int).Bytes\<close>: the absolute value, big-endian, without leading zeros.\<close>

fun nat_bytes :: "nat \<Rightarrow> byte list" where
  "nat_bytes n = (if n = 0 then [] else nat_bytes (n div 256) @ [of_nat (n mod 256)])"

declare nat_bytes.simps [simp del]

definition Bytes :: "int \<Rightarrow> byte list" where
  "Bytes i = nat_bytes (nat \<bar>i\<bar>)"

text \<open>\<^verbatim>\<open>(*Int).SetBytes\<close>: the big-endian unsigned integer of a slice.\<close>

definition SetBytes :: "byte list \<Rightarrow> int" where
  "SetBytes bs = foldl (\<lambda>a b. a * 256 + uint b) 0 bs"

text \<open>
  \<^verbatim>\<open>(*Int).Exp(x, y, m)\<close> for an exponent \<open>y \<ge> 0\<close> and a modulus \<open>m > 0\<close>, the only
  way the source calls it.
\<close>

definition Exp :: "int \<Rightarrow> int \<Rightarrow> int \<Rightarrow> int" where
  "Exp x y m = x ^ nat y mod m"

text \<open>
  \<^verbatim>\<open>big.Jacobi(x, y)\<close> is only called with the field prime as \<open>y\<close>. For an odd prime
  the Jacobi symbol is the Legendre symbol, which Euler's criterion computes.
\<close>

definition Jacobi :: "int \<Rightarrow> int \<Rightarrow> int" where
  "Jacobi x y =
     (let r = Exp x ((y - 1) div 2) y
      in if r = 0 then 0 else if r = 1 then 1 else - 1)"

text \<open>\<^verbatim>\<open>copy(dst, src)\<close> copies \<open>min (len dst) (len src)\<close> elements; the result is the new \<open>dst\<close>.\<close>

definition copy_go :: "'a list \<Rightarrow> 'a list \<Rightarrow> 'a list" where
  "copy_go dst src = take (length dst) src @ drop (length src) dst"

subsection \<open>The helpers of the package\<close>

definition GetBigIntBytesImmutable :: "int \<Rightarrow> byte list" where
  "GetBigIntBytesImmutable i =
     (if length (Bytes i) > 32 then []
      else replicate (32 - length (Bytes i)) 0 @ Bytes i)"

definition getDeterministicK :: "'a curve_scheme \<Rightarrow> hash \<Rightarrow> byte list \<Rightarrow> byte list \<Rightarrow> int result" where
  "getDeterministicK C H d message =
     (let h = H (d @ message);
          i = SetBytes h;
          k0 = i mod N C
      in if k0 = 0 then Err ZeroNonceError else Ok k0)"

definition getK :: "'a curve_scheme \<Rightarrow> int \<Rightarrow> int \<Rightarrow> int" where
  "getK C Ry k = (if Jacobi Ry (P C) = 1 then k else N C - k)"

text \<open>
  \<^verbatim>\<open>Marshal\<close>: \<^verbatim>\<open>copy(ret[1+byteLen-len(xBytes):], xBytes)\<close> panics when the slice bound is
  negative; with \<open>1 + byteLen\<close> bytes of \<open>x\<close> the copy overwrites the prefix byte before the
  parity is added to it.
\<close>

definition Marshal :: "'a curve_scheme \<Rightarrow> int \<Rightarrow> int \<Rightarrow> byte list result" where
  "Marshal C x y =
     (let byteLen = (BitSize C + 7) div 8;
          ret = (2 :: byte) # replicate byteLen 0;
          xBytes = Bytes x
      in if length xBytes > 1 + byteLen then Panic
         else
           (let off = 1 + byteLen - length xBytes;
                ret' = take off ret @ copy_go (drop off ret) xBytes
            in Ok ((hd ret' + of_int (y mod 2)) # tl ret')))"

text \<open>
  \<^verbatim>\<open>elliptic.MarshalCompressed\<close> of the standard library, which \<^verbatim>\<open>getE\<close> calls:
  the byte \<open>2 | y.Bit(0)\<close>, then \<^verbatim>\<open>x.FillBytes\<close> into \<open>byteLen\<close> bytes, which panics when
  \<open>x\<close> does not fit. Recent versions of the standard library also panic when
  \<^verbatim>\<open>IsOnCurve\<close> rejects a point other than \<open>(0, 0)\<close>; the package passes it points that the
  curve library returned or that \<^verbatim>\<open>Verify\<close> has checked, and the model has no such check.
\<close>

definition MarshalCompressed :: "'a curve_scheme \<Rightarrow> int \<Rightarrow> int \<Rightarrow> byte list result" where
  "MarshalCompressed C x y =
     (let byteLen = (BitSize C + 7) div 8;
          xBytes = Bytes x
      in if length xBytes > byteLen then Panic
         else Ok ((of_int (y mod 2) OR 2) # replicate (byteLen - length xBytes) 0 @ xBytes))"

definition getE :: "'a curve_scheme \<Rightarrow> hash \<Rightarrow> int \<Rightarrow> int \<Rightarrow> byte list \<Rightarrow> byte list \<Rightarrow> int result" where
  "getE C H Px Py rX m =
     (case MarshalCompressed C Px Py of
        Panic \<Rightarrow> Panic
      | Err e \<Rightarrow> Err e
      | Ok pk \<Rightarrow>
          (let r = rX @ pk;
               r' = r @ m;
               h = H r';
               i = SetBytes h
           in Ok (i mod N C)))"

text \<open>
  \<^verbatim>\<open>Unmarshal\<close> reads \<^verbatim>\<open>data[0]\<close> before it looks at the length, so the empty slice
  panics. \<open>None\<close> is the pair \<^verbatim>\<open>(nil, nil)\<close>.
\<close>

definition Unmarshal :: "'a curve_scheme \<Rightarrow> byte list \<Rightarrow> point option result" where
  "Unmarshal C data =
     (let byteLen = (BitSize C + 7) div 8
      in if data = [] then Panic
         else if (hd data AND NOT 1) \<noteq> 2 then Ok None
         else if length data \<noteq> 1 + byteLen then Ok None
         else
           (let x0 = SetBytes (take byteLen (drop 1 data));
                ySq = (Exp x0 3 (P C) + 7) mod P C;
                P1 = P C + 1;
                d = P1 mod 4;
                P1' = (P1 - d) div 4;
                y0 = Exp ySq P1' (P C)
            in if Exp y0 2 (P C) \<noteq> ySq then Ok None
               else if y0 mod 2 \<noteq> uint (hd data AND 1) then Ok (Some (x0, P C - y0))
               else Ok (Some (x0, y0))))"

subsection \<open>Sign, Verify, AggregateSignatures\<close>

definition Sign :: "'a curve_scheme \<Rightarrow> hash \<Rightarrow> int \<Rightarrow> byte list \<Rightarrow> byte list result" where
  "Sign C H privatekey message =
     (if privatekey < 1 \<or> privatekey > N C - 1 then Err InvalidKeyRangeError
      else
        (let d = GetBigIntBytesImmutable privatekey
         in case getDeterministicK C H d message of
              Panic \<Rightarrow> Panic
            | Err err \<Rightarrow> Err err
            | Ok k0 \<Rightarrow>
                (let R = ScalarBaseMult C (GetBigIntBytesImmutable k0);
                     k = getK C (snd R) k0;
                     Q = ScalarBaseMult C d;
                     rxBytes = GetBigIntBytesImmutable (fst R)
                 in case getE C H (fst Q) (snd Q) rxBytes message of
                      Panic \<Rightarrow> Panic
                    | Err err \<Rightarrow> Err err
                    | Ok e \<Rightarrow>
                        (let e' = e * privatekey;
                             k' = (k + e') mod N C
                         in Ok (copy_go (replicate 32 0) rxBytes
                                @ copy_go (replicate 32 0) (GetBigIntBytesImmutable k'))))))"

definition Verify ::
  "'a curve_scheme \<Rightarrow> hash \<Rightarrow> byte list \<Rightarrow> byte list \<Rightarrow> byte list \<Rightarrow> (bool \<times> error option) result" where
  "Verify C H publickey message signature =
     (case Unmarshal C publickey of
        Panic \<Rightarrow> Panic
      | Err err \<Rightarrow> Err err
      | Ok None \<Rightarrow> Ok (False, Some PointDecodeError)
      | Ok (Some (px, py)) \<Rightarrow>
          if \<not> IsOnCurve C px py then Ok (False, Some NotOnCurveError)
          else
            (let r = SetBytes (take 32 signature)
             in if r \<ge> P C then Ok (False, Some RangeError)
                else
                  (let s = SetBytes (drop 32 signature)
                   in if s \<ge> N C then Ok (False, Some RangeError)
                      else
                        (case getE C H px py (GetBigIntBytesImmutable r) message of
                           Panic \<Rightarrow> Panic
                         | Err err \<Rightarrow> Err err
                         | Ok e \<Rightarrow>
                             (let sg = ScalarBaseMult C (GetBigIntBytesImmutable s);
                                  ep = ScalarMult C (px, py) (GetBigIntBytesImmutable e);
                                  epy = P C - snd ep;
                                  R = Add C sg (fst ep, epy)
                              in if fst R = 0 \<and> snd R = 0 then Ok (False, Some ZeroPointError)
                                 else if Jacobi (snd R) (P C) \<noteq> 1 then Ok (False, Some JacobiMismatchError)
                                 else if fst R \<noteq> r then Ok (False, Some RValueMismatchError)
                                 else Ok (True, None))))))"

text \<open>
  The first loop of \<^verbatim>\<open>AggregateSignatures\<close>: the state is the list \<^verbatim>\<open>k0s\<close>, the sum
  \<^verbatim>\<open>(px, py)\<close> of the public points and the sum \<^verbatim>\<open>(rx, ry)\<close> of the nonce points.
\<close>

fun agg_collect ::
  "'a curve_scheme \<Rightarrow> hash \<Rightarrow> byte list \<Rightarrow> int list \<Rightarrow> int list \<times> point \<times> point
     \<Rightarrow> (int list \<times> point \<times> point) result" where
  "agg_collect C H message [] st = Ok st"
| "agg_collect C H message (privatekey # rest) (k0s, pt, rt) =
     (if privatekey < 1 \<or> privatekey > N C - 1 then Err InvalidKeyRangeError
      else
        (let d = GetBigIntBytesImmutable privatekey
         in case getDeterministicK C H d message of
              Panic \<Rightarrow> Panic
            | Err err \<Rightarrow> Err err
            | Ok k0i \<Rightarrow>
                (let ri = ScalarBaseMult C (GetBigIntBytesImmutable k0i);
                     pi = ScalarBaseMult C d
                 in agg_collect C H message rest (k0s @ [k0i], Add C pt pi, Add C rt ri))))"

text \<open>
  The second loop: \<open>i\<close> runs over \<^verbatim>\<open>k0s\<close>, and \<^verbatim>\<open>privatekeys[i]\<close> panics when the index is
  out of range.
\<close>

fun agg_sum :: "'a curve_scheme \<Rightarrow> int \<Rightarrow> int \<Rightarrow> int list \<Rightarrow> int list \<Rightarrow> int \<Rightarrow> int result" where
  "agg_sum C ry e [] privatekeys s = Ok s"
| "agg_sum C ry e (k0 # k0s) [] s = Panic"
| "agg_sum C ry e (k0 # k0s) (privatekey # rest) s =
     (let k = getK C ry k0;
          k' = k + e * privatekey
      in agg_sum C ry e k0s rest (s + k'))"

definition AggregateSignatures ::
  "'a curve_scheme \<Rightarrow> hash \<Rightarrow> int list \<Rightarrow> byte list \<Rightarrow> byte list result" where
  "AggregateSignatures C H privatekeys message =
     (if length privatekeys = 0 then Err EmptyKeySetError
      else
        (case agg_collect C H message privatekeys ([], (0, 0), (0, 0)) of
           Panic \<Rightarrow> Panic
         | Err err \<Rightarrow> Err err
         | Ok (k0s, (px, py), (rx, ry)) \<Rightarrow>
             (let newRx = GetBigIntBytesImmutable rx
              in case getE C H px py newRx message of
                   Panic \<Rightarrow> Panic
                 | Err err \<Rightarrow> Err err
                 | Ok e \<Rightarrow>
                     (case agg_sum C ry e k0s privatekeys 0 of
                        Panic \<Rightarrow> Panic
                      | Err err \<Rightarrow> Err err
                      | Ok s \<Rightarrow>
                          Ok (copy_go (replicate 32 0) newRx
                              @ copy_go (replicate 32 0) (GetBigIntBytesImmutable (s mod N C)))))))"

subsection \<open>The contract of the curve library\<close>

text \<open>
  The repository relies on \<^verbatim>\<open>btcec.S256()\<close> being the group of the curve
  \<open>y\<^sup>2 = x\<^sup>3 + 7\<close> over the field of \<open>P\<close> elements, with a base point of odd order \<open>N\<close>.
  What the operations need of it is stated here, in two layers, and is a premise of the
  theorems that depend on it.
\<close>

definition is_prime :: "int \<Rightarrow> bool" where
  "is_prime p = (1 < p \<and> (\<forall>d\<in>{2..<p}. \<not> d dvd p))"

definition on_curve :: "'a curve_scheme \<Rightarrow> point \<Rightarrow> bool" where
  "on_curve C A =
     (0 \<le> fst A \<and> fst A < P C \<and> 0 \<le> snd A \<and> snd A < P C \<and>
      (snd A)\<^sup>2 mod P C = ((fst A) ^ 3 + 7) mod P C)"

definition valid_point :: "'a curve_scheme \<Rightarrow> point \<Rightarrow> bool" where
  "valid_point C A = (A = (0, 0) \<or> on_curve C A)"

text \<open>\<open>n\<close> times a point, by repeated addition.\<close>

primrec smul :: "'a curve_scheme \<Rightarrow> nat \<Rightarrow> point \<Rightarrow> point" where
  "smul C 0 A = (0, 0)"
| "smul C (Suc n) A = Add C A (smul C n A)"

text \<open>The opposite of a point.\<close>

definition neg_point :: "'a curve_scheme \<Rightarrow> point \<Rightarrow> point" where
  "neg_point C A = (fst A, (P C - snd A) mod P C)"

text \<open>
  First layer: the parameters fit in 32 bytes, the operations return the point at infinity
  or a point of the curve with coordinates below \<open>P\<close>, and the point at infinity is the
  neutral element of \<^verbatim>\<open>Add\<close>.
\<close>

definition curve_wf :: "'a curve_scheme \<Rightarrow> bool" where
  "curve_wf C =
     (1 < P C \<and> P C < 2 ^ 256 \<and> 1 < N C \<and> N C < 2 ^ 256 \<and> BitSize C = 256 \<and>
      (\<forall>k. valid_point C (ScalarBaseMult C k)) \<and>
      (\<forall>A k. valid_point C A \<longrightarrow> valid_point C (ScalarMult C A k)) \<and>
      (\<forall>A B. valid_point C A \<longrightarrow> valid_point C B \<longrightarrow> valid_point C (Add C A B)) \<and>
      (\<forall>A. valid_point C A \<longrightarrow> Add C (0, 0) A = A \<and> Add C A (0, 0) = A))"

text \<open>
  Second layer: \<open>P\<close> is a prime with \<open>P mod 4 = 3\<close>; \<^verbatim>\<open>Add\<close> is a commutative group law on
  the points; the base point has order \<open>N\<close>, odd; a scalar is a big-endian byte string,
  read modulo \<open>N\<close>; and \<^verbatim>\<open>IsOnCurve\<close> accepts the points of the curve. The contract says
  nothing of what \<^verbatim>\<open>Add\<close> returns on a pair that is neither \<open>(0, 0)\<close> nor a point of the
  curve, such as the pair \<open>(0, P)\<close> that \<^verbatim>\<open>Verify\<close> passes to it when \<open>e * (px, py)\<close> is the
  point at infinity.
\<close>

definition curve_group :: "'a curve_scheme \<Rightarrow> bool" where
  "curve_group C =
     (curve_wf C \<and> is_prime (P C) \<and> P C mod 4 = 3 \<and> odd (N C) \<and> on_curve C (G C) \<and>
      (\<forall>A B. valid_point C A \<longrightarrow> valid_point C B \<longrightarrow> Add C A B = Add C B A) \<and>
      (\<forall>A B D. valid_point C A \<longrightarrow> valid_point C B \<longrightarrow> valid_point C D \<longrightarrow>
         Add C (Add C A B) D = Add C A (Add C B D)) \<and>
      (\<forall>A. on_curve C A \<longrightarrow> Add C A (neg_point C A) = (0, 0)) \<and>
      (\<forall>A bs. valid_point C A \<longrightarrow>
         ScalarMult C A bs = smul C (nat (SetBytes bs mod N C)) A) \<and>
      (\<forall>bs. ScalarBaseMult C bs = ScalarMult C (G C) bs) \<and>
      smul C (nat (N C)) (G C) = (0, 0) \<and>
      (\<forall>k. 0 < k \<longrightarrow> k < nat (N C) \<longrightarrow> smul C k (G C) \<noteq> (0, 0)) \<and>
      (\<forall>A. on_curve C A \<longrightarrow> IsOnCurve C (fst A) (snd A)))"

text \<open>
  The parameters of secp256k1, which \<^verbatim>\<open>btcec.S256()\<close> returns: the arithmetic conditions of
  the contract hold for them (the lemma \<open>S256_numbers\<close> below); that \<open>P\<close> is a prime and that
  the operations form the group are the library's part.
\<close>

definition secp256k1_P :: int where
  "secp256k1_P = 2 ^ 256 - 2 ^ 32 - 977"

definition secp256k1_N :: int where
  "secp256k1_N = 115792089237316195423570985008687907852837564279074904382605163141518161494337"

definition secp256k1_G :: point where
  "secp256k1_G =
     (55066263022277343669578718895168534326250603453777594175500187360389116729240,
      32670510020758816978083085130507043184471273380659243275938904335757337482424)"

definition is_S256 :: "'a curve_scheme \<Rightarrow> bool" where
  "is_S256 C = (P C = secp256k1_P \<and> N C = secp256k1_N \<and> BitSize C = 256 \<and> G C = secp256k1_G)"

text \<open>The multiple \<open>k * G\<close> of the base point, for an integer \<open>k\<close> read modulo \<open>N\<close>.\<close>

definition base_mult :: "'a curve_scheme \<Rightarrow> int \<Rightarrow> point" where
  "base_mult C k = smul C (nat (k mod N C)) (G C)"

subsection \<open>The aggregate signature, as the specification describes it\<close>

text \<open>The nonce of a participant: \<open>k0 = H(d \<parallel> m) mod N\<close>.\<close>

definition nonce :: "'a curve_scheme \<Rightarrow> hash \<Rightarrow> byte list \<Rightarrow> int \<Rightarrow> int" where
  "nonce C H message d = SetBytes (H (GetBigIntBytesImmutable d @ message)) mod N C"

text \<open>The sum of a list of points, from the point at infinity.\<close>

definition sum_points :: "'a curve_scheme \<Rightarrow> point list \<Rightarrow> point" where
  "sum_points C As = foldl (Add C) (0, 0) As"

definition agg_R :: "'a curve_scheme \<Rightarrow> hash \<Rightarrow> byte list \<Rightarrow> int list \<Rightarrow> point" where
  "agg_R C H message ds =
     sum_points C (map (\<lambda>d. ScalarBaseMult C (GetBigIntBytesImmutable (nonce C H message d))) ds)"

definition agg_P :: "'a curve_scheme \<Rightarrow> int list \<Rightarrow> point" where
  "agg_P C ds = sum_points C (map (\<lambda>d. ScalarBaseMult C (GetBigIntBytesImmutable d)) ds)"

text \<open>
  \<open>s = \<Sum> (k\<^sub>i + e * d\<^sub>i) mod N\<close>, where \<open>k\<^sub>i\<close> is the nonce \<open>k0\<^sub>i\<close> if the Jacobi symbol of the
  ordinate \<open>ry\<close> of the aggregate \<open>R\<close> is \<open>1\<close>, and \<open>N - k0\<^sub>i\<close> otherwise.
\<close>

definition agg_s :: "'a curve_scheme \<Rightarrow> hash \<Rightarrow> byte list \<Rightarrow> int \<Rightarrow> int \<Rightarrow> int list \<Rightarrow> int" where
  "agg_s C H message ry e ds =
     (\<Sum>d\<leftarrow>ds. (if Jacobi ry (P C) = 1 then nonce C H message d else N C - nonce C H message d)
             + e * d) mod N C"

subsection \<open>A small instance of the contract\<close>

text \<open>
  The curve \<open>y\<^sup>2 = x\<^sup>3 + 7\<close> over the field of 43 elements has 31 points, the point at
  infinity included, and \<open>(2, 12)\<close> generates them. The table lists \<open>k * (2, 12)\<close> for
  \<open>k = 0, \<dots>, 30\<close>. \<^verbatim>\<open>Add\<close> is the chord and tangent rule on the coordinates, with
  \<open>(0, 0)\<close> and no other pair as the point at infinity; \<^verbatim>\<open>ScalarMult\<close> multiplies the
  position of a point in the table. The instance shows that the contract can be met, and
  the operations can be run on it.
\<close>

definition toy_table :: "point list" where
  "toy_table =
     [(0, 0), (2, 12), (7, 7), (35, 21), (21, 18), (12, 12), (29, 31), (25, 18), (32, 40),
      (20, 40), (42, 7), (40, 25), (37, 36), (13, 21), (34, 40), (38, 21), (38, 22), (34, 3),
      (13, 22), (37, 7), (40, 18), (42, 36), (20, 3), (32, 3), (25, 25), (29, 12), (12, 31),
      (21, 25), (35, 22), (7, 36), (2, 31)]"

definition toy_log :: "point \<Rightarrow> nat" where
  "toy_log A = length (takeWhile (\<lambda>B. B \<noteq> A) toy_table)"

definition toy_mul :: "nat \<Rightarrow> point \<Rightarrow> point" where
  "toy_mul n A = toy_table ! ((n * toy_log A) mod 31)"

text \<open>The inverses modulo 43: \<open>toy_inv a * a mod 43 = 1\<close> for \<open>0 < a < 43\<close>.\<close>

definition toy_inv :: "int \<Rightarrow> int" where
  "toy_inv a =
     [0, 1, 22, 29, 11, 26, 36, 37, 27, 24, 13, 4, 18, 10, 40, 23, 35, 38, 12, 34, 28, 41, 2,
      15, 9, 31, 5, 8, 20, 3, 33, 25, 39, 30, 19, 16, 6, 7, 17, 32, 14, 21, 42] ! nat (a mod 43)"

definition toy_add :: "point \<Rightarrow> point \<Rightarrow> point" where
  "toy_add A B =
     (if A = (0, 0) then B
      else if B = (0, 0) then A
      else
        (let x1 = fst A mod 43; y1 = snd A mod 43; x2 = fst B mod 43; y2 = snd B mod 43
         in if x1 = x2 \<and> (y1 + y2) mod 43 = 0 then (0, 0)
            else
              (let l = (if x1 = x2 then 3 * x1 * x1 * toy_inv (2 * y1)
                        else (y2 - y1) * toy_inv (x2 - x1)) mod 43;
                   x3 = (l * l - x1 - x2) mod 43
               in (x3, (l * (x1 - x3) - y1) mod 43))))"

definition toy_curve :: curve where
  "toy_curve =
     \<lparr>P = 43, N = 31, BitSize = 256, G = (2, 12),
      IsOnCurve = (\<lambda>x y. 0 \<le> x \<and> x < 43 \<and> 0 \<le> y \<and> y < 43 \<and> y\<^sup>2 mod 43 = (x ^ 3 + 7) mod 43),
      Add = toy_add,
      ScalarMult = (\<lambda>A bs. toy_mul (nat (SetBytes bs mod 31)) A),
      ScalarBaseMult = (\<lambda>bs. toy_mul (nat (SetBytes bs mod 31)) (2, 12))\<rparr>"

text \<open>
  Three hash functions for the instance: a constant one, one that tells the key \<open>1\<close> apart,
  and one that gives the nonce \<open>5\<close> (its input has 64 bytes) and the challenge \<open>0\<close>.
\<close>

definition toy_hash :: hash where
  "toy_hash bs = replicate 31 0 @ [5]"



section \<open>Properties\<close>

subsection \<open>Byte strings and integers\<close>

lemma SetBytes_Nil [simp]: "SetBytes [] = 0"
  by (simp add: SetBytes_def)

lemma SetBytes_snoc [simp]: "SetBytes (bs @ [b]) = SetBytes bs * 256 + uint b"
  by (simp add: SetBytes_def)


lemma uint_byte_bound: "uint (b :: byte) < 256"
  using uint_bounded [of b] by simp

lemma SetBytes_bound: "SetBytes bs < 256 ^ length bs"
proof (induction bs rule: rev_induct)
  case Nil
  show ?case by simp
next
  case (snoc b bs)
  have "SetBytes bs + 1 \<le> 256 ^ length bs" using snoc by simp
  then have "(SetBytes bs + 1) * 256 \<le> 256 ^ length bs * 256" by (rule mult_right_mono) simp
  then show ?case using uint_byte_bound [of b] by (simp add: algebra_simps)
qed

lemma SetBytes_append: "SetBytes (xs @ ys) = SetBytes xs * 256 ^ length ys + SetBytes ys"
proof (induction ys rule: rev_induct)
  case Nil
  show ?case by simp
next
  case (snoc y ys)
  have "SetBytes (xs @ ys @ [y]) = SetBytes ((xs @ ys) @ [y])" by simp
  also have "\<dots> = SetBytes (xs @ ys) * 256 + uint y" by (rule SetBytes_snoc)
  finally show ?case using snoc by (simp add: algebra_simps)
qed

lemma SetBytes_replicate_zero [simp]: "SetBytes (replicate k 0) = 0"
  by (induction k) (simp_all add: SetBytes_def)

lemma SetBytes_pad [simp]: "SetBytes (replicate k 0 @ bs) = SetBytes bs"
  by (simp add: SetBytes_append)

lemma uint_of_nat_mod_256: "uint (of_nat (n mod 256) :: byte) = int (n mod 256)"
  by (simp add: uint_nat unat_of_nat)

lemma SetBytes_nat_bytes [simp]: "SetBytes (nat_bytes n) = int n"
proof (induction n rule: nat_bytes.induct)
  case (1 n)
  show ?case
  proof (cases "n = 0")
    case True
    then show ?thesis by (simp add: nat_bytes.simps)
  next
    case False
    have "nat_bytes n = nat_bytes (n div 256) @ [of_nat (n mod 256)]"
      using False by (subst nat_bytes.simps) simp
    then have "SetBytes (nat_bytes n) = int (n div 256) * 256 + int (n mod 256)"
      using 1 False by (simp add: uint_of_nat_mod_256)
    then show ?thesis by (simp add: of_nat_div of_nat_mod)
  qed
qed

lemma length_nat_bytes: "n < 256 ^ k \<Longrightarrow> length (nat_bytes n) \<le> k"
proof (induction n arbitrary: k rule: nat_bytes.induct)
  case (1 n)
  show ?case
  proof (cases "n = 0")
    case True
    then show ?thesis by (simp add: nat_bytes.simps)
  next
    case False
    then obtain j where k: "k = Suc j" using 1(2) by (cases k) auto
    have "n div 256 < 256 ^ j" using 1(2) k by (simp add: less_mult_imp_div_less)
    then have "length (nat_bytes (n div 256)) \<le> j" using 1(1) False by blast
    then show ?thesis using False k by (subst nat_bytes.simps) simp
  qed
qed

lemma SetBytes_Bytes [simp]: "0 \<le> i \<Longrightarrow> SetBytes (Bytes i) = i"
  by (simp add: Bytes_def)

lemma length_Bytes: "0 \<le> i \<Longrightarrow> i < 256 ^ k \<Longrightarrow> length (Bytes i) \<le> k"
proof -
  assume a: "0 \<le> i" "i < 256 ^ k"
  have "int (nat \<bar>i\<bar>) < int (256 ^ k)" using a by simp
  then have "nat \<bar>i\<bar> < 256 ^ k" by (simp only: of_nat_less_iff)
  then show ?thesis unfolding Bytes_def by (rule length_nat_bytes)
qed

lemma two_256: "(2::int) ^ 256 = 256 ^ 32"
  by simp

lemma length_GetBig: "0 \<le> i \<Longrightarrow> i < 2 ^ 256 \<Longrightarrow> length (GetBigIntBytesImmutable i) = 32"
  using length_Bytes [of i 32] by (simp add: GetBigIntBytesImmutable_def)

lemma SetBytes_GetBig: "0 \<le> i \<Longrightarrow> i < 2 ^ 256 \<Longrightarrow> SetBytes (GetBigIntBytesImmutable i) = i"
  using length_Bytes [of i 32] by (simp add: GetBigIntBytesImmutable_def)






lemma copy_go_same_length [simp]: "length dst = length src \<Longrightarrow> copy_go dst src = src"
  by (simp add: copy_go_def)

lemma copy_go_Nil [simp]: "copy_go dst [] = dst"
  by (simp add: copy_go_def)

lemma length_copy_go: "length src \<le> length dst \<Longrightarrow> length (copy_go dst src) = length dst"
  by (simp add: copy_go_def)

lemma length_GetBig_cases: "length (GetBigIntBytesImmutable i) = 32 \<or> GetBigIntBytesImmutable i = []"
  by (simp add: GetBigIntBytesImmutable_def)

lemma length_copy_GetBig [simp]: "length (copy_go (replicate 32 0) (GetBigIntBytesImmutable i)) = 32"
  using length_GetBig_cases [of i] by (auto simp add: length_copy_go)

lemma Bytes_small: "0 < i \<Longrightarrow> i < 256 \<Longrightarrow> Bytes i = [of_int i]"
proof -
  assume i: "0 < i" "i < 256"
  have n: "nat i \<noteq> 0" "nat i div 256 = 0" "nat i mod 256 = nat i" using i by simp_all
  have "nat_bytes (nat i) = nat_bytes 0 @ [of_nat (nat i)]"
    using n by (subst nat_bytes.simps) simp
  then show ?thesis using i by (simp add: Bytes_def nat_bytes.simps [of 0])
qed

lemma Bytes_zero: "Bytes 0 = []"
  by (simp add: Bytes_def nat_bytes.simps)

lemma GetBig_small:
  "0 \<le> i \<Longrightarrow> i < 256 \<Longrightarrow> GetBigIntBytesImmutable i = replicate 31 0 @ [of_int i]"
proof (cases "i = 0")
  case True
  have "(32 :: nat) = Suc 31" by simp
  then have "replicate 32 (0 :: byte) = replicate 31 0 @ [0]"
    by (simp only: replicate_Suc replicate_append_same)
  then show ?thesis using True by (simp add: GetBigIntBytesImmutable_def Bytes_zero)
next
  case False
  assume "0 \<le> i" "i < 256"
  then show ?thesis using False by (simp add: GetBigIntBytesImmutable_def Bytes_small)
qed

lemma SetBytes_GetBig_small: "0 \<le> i \<Longrightarrow> i < 256 \<Longrightarrow> SetBytes (GetBigIntBytesImmutable i) = i"
  by (simp add: SetBytes_GetBig)

subsection \<open>Encoding points, and the checks of the operations\<close>

lemma byte_andnot1: "((b::byte) AND NOT 1 = 2) = (b = 2 \<or> b = 3)"
proof
  assume a: "b AND NOT 1 = 2"
  have "b = (b AND NOT 1) OR (b AND 1)"
    by (simp add: bit_eq_iff bit_simps) blast
  moreover have "b AND 1 = 0 \<or> b AND 1 = 1"
    by (cases "odd b") (simp_all add: and_one_eq mod_2_eq_odd)
  ultimately have "b = 2 OR 0 \<or> b = 2 OR 1" using a by metis
  then show "b = 2 \<or> b = 3" by simp
next
  assume "b = 2 \<or> b = 3"
  then show "b AND NOT 1 = 2" by auto
qed

lemma byte_and_mask: "((b::byte) AND - 2 = 2) = (b = 2 \<or> b = 3)"
  using byte_andnot1 [of b] by simp

lemma parity_byte: "(2 :: byte) + of_int (y mod 2) = of_int (y mod 2) OR 2"
proof -
  have "y mod 2 = 0 \<or> y mod 2 = 1" by presburger
  then show ?thesis by auto
qed

lemma Marshal_eq_MarshalCompressed:
  assumes "length (Bytes x) \<le> (BitSize C + 7) div 8"
  shows "Marshal C x y = MarshalCompressed C x y"
proof -
  let ?n = "(BitSize C + 7) div 8" and ?l = "length (Bytes x)"
  have t: "take (1 + ?n - ?l) ((2 :: byte) # replicate ?n 0) = 2 # replicate (?n - ?l) 0"
    using assms by (simp add: Suc_diff_le)
  have d: "drop (1 + ?n - ?l) ((2 :: byte) # replicate ?n 0) = replicate ?l 0"
    using assms by (simp add: Suc_diff_le)
  show ?thesis
    using assms unfolding Marshal_def MarshalCompressed_def Let_def t d
    by (simp add: parity_byte)
qed

lemma getE_not_Err: "getE C H px py rX m \<noteq> Err e"
  by (simp add: getE_def MarshalCompressed_def Let_def split: result.splits)

lemma getDeterministicK_Err: "getDeterministicK C H d m = Err e \<Longrightarrow> e = ZeroNonceError"
  by (simp add: getDeterministicK_def Let_def split: if_splits)

lemma getDeterministicK_nonce:
  "getDeterministicK C H (GetBigIntBytesImmutable d) m =
     (if nonce C H m d = 0 then Err ZeroNonceError else Ok (nonce C H m d))"
  by (simp add: getDeterministicK_def nonce_def Let_def)

lemma getE_Ok:
  "MarshalCompressed C px py = Ok pk \<Longrightarrow> getE C H px py rX m = Ok (SetBytes (H (rX @ pk @ m)) mod N C)"
  by (simp add: getE_def Let_def)


subsection \<open>What the first layer of the contract gives\<close>

lemma valid_point_coords:
  assumes "curve_wf C" "valid_point C A"
  shows "0 \<le> fst A \<and> fst A < 2 ^ 256 \<and> 0 \<le> snd A \<and> snd A < 2 ^ 256"
proof -
  have "1 < P C" "P C < 2 ^ 256" using assms(1) by (simp_all add: curve_wf_def)
  then show ?thesis using assms(2) by (auto simp add: valid_point_def on_curve_def)
qed

lemma curve_wf_SBM: "curve_wf C \<Longrightarrow> valid_point C (ScalarBaseMult C k)"
  unfolding curve_wf_def by blast

lemma curve_wf_Add: "curve_wf C \<Longrightarrow> valid_point C A \<Longrightarrow> valid_point C B \<Longrightarrow> valid_point C (Add C A B)"
  unfolding curve_wf_def by blast

lemma curve_wf_Add_0: "curve_wf C \<Longrightarrow> valid_point C A \<Longrightarrow> Add C (0, 0) A = A"
  unfolding curve_wf_def by blast

lemma valid_point_0 [simp]: "valid_point C (0, 0)"
  by (simp add: valid_point_def)

lemma GetBig_coord:
  assumes "curve_wf C" "valid_point C A"
  shows "length (GetBigIntBytesImmutable (fst A)) = 32"
    and "SetBytes (GetBigIntBytesImmutable (fst A)) = fst A"
  using valid_point_coords [OF assms] by (simp_all add: length_GetBig SetBytes_GetBig)

lemma Marshal_valid_point:
  assumes "curve_wf C" "valid_point C A"
  shows "\<exists>pk. Marshal C (fst A) (snd A) = Ok pk \<and> MarshalCompressed C (fst A) (snd A) = Ok pk \<and> length pk = 33"
proof -
  have b: "BitSize C = 256" using assms(1) by (simp add: curve_wf_def)
  have "0 \<le> fst A" "fst A < 256 ^ 32"
    using valid_point_coords [OF assms] by simp_all
  then have l: "length (Bytes (fst A)) \<le> 32" by (rule length_Bytes)
  then have "Marshal C (fst A) (snd A) = MarshalCompressed C (fst A) (snd A)"
    using b by (simp add: Marshal_eq_MarshalCompressed)
  then show ?thesis using l b by (simp add: MarshalCompressed_def Let_def)
qed

lemma mod_N_range:
  assumes "curve_wf C"
  shows "0 \<le> x mod N C" "x mod N C < 2 ^ 256"
proof -
  have n: "1 < N C" "N C < 2 ^ 256" using assms by (simp_all add: curve_wf_def)
  show "0 \<le> x mod N C" using n by simp
  have "x mod N C < N C" using n by simp
  then show "x mod N C < 2 ^ 256" using n by linarith
qed

lemma Sign_Ok_form:
  assumes "curve_wf C" and "1 \<le> d" and "d \<le> N C - 1" and "length m = 32"
    and "Sign C H d m = Ok sig"
  shows "\<exists>pk.
     (let k0 = nonce C H m d;
          R = ScalarBaseMult C (GetBigIntBytesImmutable k0);
          k = (if Jacobi (snd R) (P C) = 1 then k0 else N C - k0);
          Q = ScalarBaseMult C (GetBigIntBytesImmutable d);
          e = SetBytes (H (GetBigIntBytesImmutable (fst R) @ pk @ m)) mod N C
      in Marshal C (fst Q) (snd Q) = Ok pk \<and>
         length sig = 64 \<and>
         take 32 sig = GetBigIntBytesImmutable (fst R) \<and>
         SetBytes (take 32 sig) = fst R \<and>
         SetBytes (drop 32 sig) = (k + e * d) mod N C)"
proof -
  let ?k0 = "nonce C H m d"
  let ?R = "ScalarBaseMult C (GetBigIntBytesImmutable ?k0)"
  let ?Q = "ScalarBaseMult C (GetBigIntBytesImmutable d)"
  obtain pk where pk: "Marshal C (fst ?Q) (snd ?Q) = Ok pk"
    "MarshalCompressed C (fst ?Q) (snd ?Q) = Ok pk"
    using Marshal_valid_point [OF assms(1) curve_wf_SBM [OF assms(1)]] by blast
  have R: "length (GetBigIntBytesImmutable (fst ?R)) = 32"
    "SetBytes (GetBigIntBytesImmutable (fst ?R)) = fst ?R"
    using GetBig_coord [OF assms(1) curve_wf_SBM [OF assms(1)]] by simp_all
  have s: "length (GetBigIntBytesImmutable (x mod N C)) = 32"
    "SetBytes (GetBigIntBytesImmutable (x mod N C)) = x mod N C" for x
    using mod_N_range [OF assms(1), of x] by (simp_all add: length_GetBig SetBytes_GetBig)
  have nz: "?k0 \<noteq> 0"
    using assms(2,3,5) by (auto simp add: Sign_def Let_def getDeterministicK_nonce split: if_splits)
  have "sig = GetBigIntBytesImmutable (fst ?R) @
      GetBigIntBytesImmutable ((getK C (snd ?R) ?k0 +
        SetBytes (H (GetBigIntBytesImmutable (fst ?R) @ pk @ m)) mod N C * d) mod N C)"
    using assms(2,3,5) nz R s
    by (simp add: Sign_def Let_def getDeterministicK_nonce getE_Ok [OF pk(2)])
  then show ?thesis
    using pk(1) R s by (auto simp add: Let_def getK_def)
qed

lemma agg_collect_Ok:
  assumes "agg_collect C H m ds (k0s, pt, rt) = Ok (k0s', pt', rt')"
  shows "k0s' = k0s @ map (nonce C H m) ds \<and>
         pt' = foldl (Add C) pt (map (\<lambda>d. ScalarBaseMult C (GetBigIntBytesImmutable d)) ds) \<and>
         rt' = foldl (Add C) rt
                 (map (\<lambda>d. ScalarBaseMult C (GetBigIntBytesImmutable (nonce C H m d))) ds)"
  using assms
proof (induction ds arbitrary: k0s pt rt)
  case Nil
  then show ?case by simp
next
  case (Cons d ds)
  from Cons.prems have r: "\<not> (d < 1 \<or> d > N C - 1)" and nz: "nonce C H m d \<noteq> 0"
    by (auto simp add: Let_def getDeterministicK_nonce split: if_splits)
  from Cons.prems r nz have
    "agg_collect C H m ds
       (k0s @ [nonce C H m d],
        Add C pt (ScalarBaseMult C (GetBigIntBytesImmutable d)),
        Add C rt (ScalarBaseMult C (GetBigIntBytesImmutable (nonce C H m d))))
     = Ok (k0s', pt', rt')"
    by (simp add: Let_def getDeterministicK_nonce)
  from Cons.IH [OF this] show ?case by simp
qed

lemma agg_sum_map:
  "agg_sum C ry e (map f ds) ds s = Ok (s + (\<Sum>d\<leftarrow>ds. getK C ry (f d) + e * d))"
  by (induction ds arbitrary: s) (simp_all add: Let_def algebra_simps)

lemma foldl_Add_valid:
  assumes "curve_wf C" "valid_point C A" "\<forall>B\<in>set Bs. valid_point C B"
  shows "valid_point C (foldl (Add C) A Bs)"
  using assms(2,3)
  by (induction Bs arbitrary: A) (simp_all add: curve_wf_Add [OF assms(1)])

lemma agg_R_valid: "curve_wf C \<Longrightarrow> valid_point C (agg_R C H m ds)"
  unfolding agg_R_def sum_points_def
  by (rule foldl_Add_valid) (auto simp add: curve_wf_SBM)

lemma agg_P_valid: "curve_wf C \<Longrightarrow> valid_point C (agg_P C ds)"
  unfolding agg_P_def sum_points_def
  by (rule foldl_Add_valid) (auto simp add: curve_wf_SBM)

lemma Aggregate_Ok_form:
  assumes "curve_wf C" and "AggregateSignatures C H ds m = Ok sig"
  shows "\<exists>pk.
     (let R = agg_R C H m ds;
          Q = agg_P C ds;
          e = SetBytes (H (GetBigIntBytesImmutable (fst R) @ pk @ m)) mod N C
      in Marshal C (fst Q) (snd Q) = Ok pk \<and>
         length sig = 64 \<and>
         take 32 sig = GetBigIntBytesImmutable (fst R) \<and>
         SetBytes (take 32 sig) = fst R \<and>
         SetBytes (drop 32 sig) = agg_s C H m (snd R) e ds)"
proof -
  let ?R = "agg_R C H m ds" and ?Q = "agg_P C ds"
  obtain k0s px py rx ry where
    col: "agg_collect C H m ds ([], (0, 0), (0, 0)) = Ok (k0s, (px, py), (rx, ry))"
    using assms(2)
    by (auto simp add: AggregateSignatures_def split: if_splits result.splits)
  from agg_collect_Ok [OF col] have
    k0s: "k0s = map (nonce C H m) ds" and Q: "(px, py) = ?Q" and R: "(rx, ry) = ?R"
    by (simp_all add: agg_R_def agg_P_def sum_points_def)
  obtain pk where pk: "Marshal C (fst ?Q) (snd ?Q) = Ok pk"
    "MarshalCompressed C (fst ?Q) (snd ?Q) = Ok pk"
    using Marshal_valid_point [OF assms(1) agg_P_valid [OF assms(1)]] by blast
  have Rb: "length (GetBigIntBytesImmutable (fst ?R)) = 32"
    "SetBytes (GetBigIntBytesImmutable (fst ?R)) = fst ?R"
    using GetBig_coord [OF assms(1) agg_R_valid [OF assms(1)]] by simp_all
  have s: "length (GetBigIntBytesImmutable (x mod N C)) = 32"
    "SetBytes (GetBigIntBytesImmutable (x mod N C)) = x mod N C" for x
    using mod_N_range [OF assms(1), of x] by (simp_all add: length_GetBig SetBytes_GetBig)
  have fs: "px = fst ?Q" "py = snd ?Q" "rx = fst ?R" "ry = snd ?R"
    using Q R by (simp_all add: prod_eq_iff)
  have "sig = GetBigIntBytesImmutable (fst ?R) @
      GetBigIntBytesImmutable
        (agg_s C H m (snd ?R) (SetBytes (H (GetBigIntBytesImmutable (fst ?R) @ pk @ m)) mod N C) ds)"
    using assms(2) col Rb s
    by (simp add: AggregateSignatures_def Let_def fs getE_Ok [OF pk(2)] k0s agg_sum_map agg_s_def
        getK_def case_prod_beta split: if_splits)
  then show ?thesis
    using pk(1) Rb s by (auto simp add: Let_def agg_s_def)
qed

subsection \<open>Fermat's little theorem and square roots modulo a prime\<close>

lemma is_prime_pos: "is_prime p \<Longrightarrow> 1 < p"
  by (simp add: is_prime_def)

lemma is_prime_dvd: "is_prime p \<Longrightarrow> d dvd p \<Longrightarrow> 0 \<le> d \<Longrightarrow> d = 1 \<or> d = p"
proof -
  assume p: "is_prime p" and d: "d dvd p" and d0: "0 \<le> d"
  have "1 < p" using p by (rule is_prime_pos)
  then have "d \<le> p" using d by (simp add: zdvd_imp_le)
  moreover have "d \<noteq> 0" using d \<open>1 < p\<close> by auto
  moreover have "\<not> (2 \<le> d \<and> d < p)" using p d by (auto simp add: is_prime_def)
  ultimately show ?thesis using d0 by arith
qed

lemma is_prime_coprime: "is_prime p \<Longrightarrow> \<not> p dvd a \<Longrightarrow> coprime p a"
proof -
  assume p: "is_prime p" and a: "\<not> p dvd a"
  have "gcd p a = 1 \<or> gcd p a = p"
    using p by (rule is_prime_dvd) simp_all
  moreover have "gcd p a \<noteq> p" using a by (metis gcd_dvd2)
  ultimately show ?thesis by (simp add: coprime_iff_gcd_eq_1)
qed

lemma is_prime_dvd_mult: "is_prime p \<Longrightarrow> p dvd a * b \<Longrightarrow> p dvd a \<or> p dvd b"
proof -
  assume p: "is_prime p" and d: "p dvd a * b"
  show ?thesis
  proof (cases "p dvd a")
    case True
    then show ?thesis by simp
  next
    case False
    then have "coprime p a" using p by (simp add: is_prime_coprime)
    then have "p dvd a * b \<longleftrightarrow> p dvd b" by (rule coprime_dvd_mult_right_iff)
    then show ?thesis using d by simp
  qed
qed

lemma is_prime_not_dvd_fact:
  assumes "is_prime p" "int k < p"
  shows "\<not> p dvd (fact k :: int)"
  using assms(2)
proof (induction k)
  case 0
  show ?case using is_prime_pos [OF assms(1)] by simp
next
  case (Suc k)
  have "\<not> p dvd int (Suc k)"
    using Suc.prems zdvd_imp_le [of p "int (Suc k)"] by auto
  moreover have "\<not> p dvd (fact k :: int)" using Suc by simp
  moreover have "(fact (Suc k) :: int) = int (Suc k) * fact k" by simp
  ultimately show ?case
    using is_prime_dvd_mult [OF assms(1), of "int (Suc k)" "fact k"] by metis
qed

lemma is_prime_dvd_choose:
  assumes "is_prime p" "0 < k" "int k < p"
  shows "p dvd int (nat p choose k)"
proof -
  let ?n = "nat p"
  have p1: "1 < p" using assms(1) by (rule is_prime_pos)
  have kn: "k \<le> ?n" using assms(3) by simp
  have "fact k * fact (?n - k) * (?n choose k) = fact ?n"
    using kn by (rule binomial_fact_lemma)
  then have "(fact k :: int) * fact (?n - k) * int (?n choose k) = fact ?n"
    by (metis of_nat_fact of_nat_mult)
  moreover have "fact ?n = int ?n * fact (?n - 1)"
    using p1 by (metis fact_reduce of_nat_fact of_nat_mult zero_less_nat_eq less_trans zero_less_one)
  ultimately have "p dvd (fact k :: int) * fact (?n - k) * int (?n choose k)"
    using p1 by simp
  then have "p dvd (fact k :: int) * fact (?n - k) \<or> p dvd int (?n choose k)"
    by (rule is_prime_dvd_mult [OF assms(1)])
  moreover have "\<not> p dvd (fact k :: int)"
    using assms(1,3) by (rule is_prime_not_dvd_fact)
  moreover have "\<not> p dvd (fact (?n - k) :: int)"
    using assms(1) by (rule is_prime_not_dvd_fact) (use assms(2) p1 in auto)
  ultimately show ?thesis
    using is_prime_dvd_mult [OF assms(1), of "fact k" "fact (?n - k)"] by blast
qed

lemma fermat_step:
  assumes "is_prime p"
  shows "p dvd (a + 1) ^ nat p - a ^ nat p - (1 :: int)"
proof -
  have p1: "1 < p" using assms by (rule is_prime_pos)
  then obtain m where m: "nat p = Suc (Suc m)"
    by (metis Suc_lessD less_imp_Suc_add nat_less_iff zero_less_one_class.zero_le_one nat_one_as_int  one_less_nat_eq add_Suc plus_1_eq_Suc zero_less_Suc)
  let ?f = "\<lambda>k. int (nat p choose k) * a ^ k"
  have "(a + 1) ^ nat p = (\<Sum>k\<le>nat p. ?f k)"
    using binomial_ring [of a 1 "nat p"] by simp
  also have "\<dots> = ?f 0 + (\<Sum>i\<le>Suc m. ?f (Suc i))"
    unfolding m by (rule sum.atMost_Suc_shift)
  also have "\<dots> = ?f 0 + ((\<Sum>i\<le>m. ?f (Suc i)) + ?f (Suc (Suc m)))"
    by simp
  finally have "(a + 1) ^ nat p - a ^ nat p - 1 = (\<Sum>i\<le>m. ?f (Suc i))"
    by (simp add: m)
  moreover have "p dvd (\<Sum>i\<le>m. ?f (Suc i))"
  proof (rule dvd_sum)
    fix i assume "i \<in> {..m}"
    moreover have "p = int (nat p)" using p1 by simp
    ultimately have "int (Suc i) < p" using m by simp
    then have "p dvd int (nat p choose Suc i)"
      using is_prime_dvd_choose [OF assms, of "Suc i"] by simp
    then show "p dvd ?f (Suc i)" by simp
  qed
  ultimately show ?thesis by simp
qed

lemma fermat_nat:
  assumes "is_prime p"
  shows "p dvd int a ^ nat p - int a"
proof (induction a)
  case 0
  show ?case using is_prime_pos [OF assms] by (simp add: power_0_left)
next
  case (Suc a)
  have e: "int (Suc a) ^ nat p - int (Suc a) =
        ((int a + 1) ^ nat p - int a ^ nat p - 1) + (int a ^ nat p - int a)"
    by (simp add: add.commute)
  show ?case
    unfolding e using fermat_step [OF assms, of "int a"] Suc by (rule dvd_add)
qed

lemma fermat_int:
  assumes "is_prime p"
  shows "p dvd a ^ nat p - a"
proof -
  have p1: "1 < p" using assms by (rule is_prime_pos)
  have "p dvd (a mod p) ^ nat p - (a mod p)"
    using fermat_nat [OF assms, of "nat (a mod p)"] p1 by simp
  then have "(a mod p) ^ nat p mod p = (a mod p) mod p"
    by (simp only: mod_eq_dvd_iff)
  then have "a ^ nat p mod p = a mod p"
    by (simp add: power_mod)
  then show ?thesis by (simp add: mod_eq_dvd_iff)
qed

lemma fermat_little:
  assumes "is_prime p" "\<not> p dvd a"
  shows "a ^ nat (p - 1) mod p = 1"
proof -
  have p1: "1 < p" using assms(1) by (rule is_prime_pos)
  have "nat p = Suc (nat (p - 1))" using p1 by simp
  then have "a ^ nat p - a = a * (a ^ nat (p - 1) - 1)"
    by (simp add: algebra_simps)
  then have "p dvd a * (a ^ nat (p - 1) - 1)"
    using fermat_int [OF assms(1), of a] by simp
  then have "p dvd a ^ nat (p - 1) - 1"
    using is_prime_dvd_mult [OF assms(1)] assms(2) by blast
  then have "a ^ nat (p - 1) mod p = 1 mod p"
    by (simp add: mod_eq_dvd_iff)
  then show ?thesis using p1 by simp
qed

lemma sqrt_exp:
  assumes p: "is_prime p" and p4: "p mod 4 = 3" and y: "0 \<le> y" "y < p"
  shows "((y\<^sup>2 mod p) ^ nat ((p + 1) div 4) mod p)\<^sup>2 mod p = y\<^sup>2 mod p"
proof -
  have p1: "1 < p" using p by (rule is_prime_pos)
  let ?q = "nat ((p + 1) div 4)"
  have "4 * ((p + 1) div 4) = p + 1" using p4 by presburger
  moreover have "0 \<le> (p + 1) div 4" using p1 by simp
  ultimately have q: "int (4 * ?q) = p + 1" by simp
  have "int (4 * ?q) = int (Suc (Suc (nat (p - 1))))" unfolding q using p1 by simp
  then have q': "4 * ?q = Suc (Suc (nat (p - 1)))" by (simp only: of_nat_eq_iff)
  have "((y\<^sup>2 mod p) ^ ?q mod p)\<^sup>2 mod p = ((y\<^sup>2) ^ ?q)\<^sup>2 mod p"
    by (simp add: power_mod)
  also have "((y\<^sup>2) ^ ?q)\<^sup>2 = y ^ (4 * ?q)"
    by (simp add: power_mult [symmetric])
  also have "\<dots> = y ^ nat (p - 1) * y\<^sup>2"
    unfolding q' by (simp add: power2_eq_square)
  finally have e: "((y\<^sup>2 mod p) ^ ?q mod p)\<^sup>2 mod p = y ^ nat (p - 1) * y\<^sup>2 mod p" .
  show ?thesis
  proof (cases "y = 0")
    case True
    then show ?thesis using e by simp
  next
    case False
    then have "\<not> p dvd y" using y zdvd_imp_le [of p y] by auto
    then have f: "y ^ nat (p - 1) mod p = 1" using p by (simp add: fermat_little)
    have "y ^ nat (p - 1) * y\<^sup>2 mod p = (y ^ nat (p - 1) mod p) * y\<^sup>2 mod p"
      by (simp add: mod_mult_left_eq)
    then show ?thesis using e f by simp
  qed
qed

lemma square_roots:
  assumes p: "is_prime p" and a: "0 \<le> a" "a < p" and b: "0 \<le> b" "b < p"
    and e: "a\<^sup>2 mod p = b\<^sup>2 mod p"
  shows "a = b \<or> a = p - b"
proof -
  have "p dvd a\<^sup>2 - b\<^sup>2" using e by (simp add: mod_eq_dvd_iff)
  moreover have "a\<^sup>2 - b\<^sup>2 = (a - b) * (a + b)" by (simp add: power2_eq_square algebra_simps)
  ultimately have "p dvd a - b \<or> p dvd a + b"
    using is_prime_dvd_mult [OF p] by simp
  then show ?thesis
  proof
    assume "p dvd a - b"
    then have "p dvd \<bar>a - b\<bar>" by simp
    moreover have "\<bar>a - b\<bar> < p" using a b by arith
    ultimately have "\<bar>a - b\<bar> = 0" using zdvd_imp_le [of p "\<bar>a - b\<bar>"] by fastforce
    then show ?thesis by simp
  next
    assume d: "p dvd a + b"
    have "a + b = 0 \<or> p \<le> a + b" using d a b zdvd_imp_le [of p "a + b"] by fastforce
    moreover have "a + b < 2 * p" using a b by simp
    moreover have "p < a + b \<Longrightarrow> \<not> p dvd a + b"
    proof
      assume l: "p < a + b" and "p dvd a + b"
      then have "p dvd (a + b) - p" by simp
      moreover have "0 < a + b - p" "a + b - p < p" using l a b by simp_all
      ultimately show False using zdvd_imp_le [of p "a + b - p"] by simp
    qed
    ultimately have "a + b = 0 \<or> a + b = p" using d by force
    then show ?thesis using a b by auto
  qed
qed

lemma parity_byte_cases:
  "(of_int (y mod 2) OR 2 :: byte) = 2 \<and> y mod 2 = 0 \<or> (of_int (y mod 2) OR 2 :: byte) = 3 \<and> y mod 2 = 1"
proof -
  have "y mod 2 = 0 \<or> y mod 2 = 1" by presburger
  then show ?thesis by auto
qed

lemma parity_byte_and1: "uint ((of_int (y mod 2) OR 2 :: byte) AND 1) = y mod 2"
  using parity_byte_cases [of y] by auto

lemma parity_byte_mask: "(of_int (y mod 2) OR 2 :: byte) AND NOT 1 = 2"
  using parity_byte_cases [of y] by (auto simp add: byte_andnot1)

lemma parity_byte_mask2: "(of_int (y mod 2) OR 2 :: byte) AND - 2 = 2"
  using parity_byte_mask [of y] by simp

lemma decode_encode_on_curve:
  assumes "is_prime (P C)" and "P C mod 4 = 3" and "P C < 2 ^ 256" and "BitSize C = 256"
    and "on_curve C (x, y)"
  shows "\<exists>data. Marshal C x y = Ok data \<and> length data = 33 \<and>
           Unmarshal C data = Ok (Some (x, y))"
proof -
  let ?p = "P C"
  have p1: "1 < ?p" using assms(1) by (rule is_prime_pos)
  have x: "0 \<le> x" "x < ?p" and y: "0 \<le> y" "y < ?p"
    and eq: "y\<^sup>2 mod ?p = (x ^ 3 + 7) mod ?p"
    using assms(5) by (simp_all add: on_curve_def)
  have "x < 256 ^ 32" using x(2) assms(3) by simp
  then have l: "length (Bytes x) \<le> 32" using x(1) by (simp add: length_Bytes)
  let ?data = "(of_int (y mod 2) OR 2 :: byte) # replicate (32 - length (Bytes x)) 0 @ Bytes x"
  have m: "Marshal C x y = Ok ?data"
    using l assms(4) by (simp add: Marshal_eq_MarshalCompressed MarshalCompressed_def Let_def)
  have len: "length ?data = 33" using l by simp
  have x0: "SetBytes (take 32 (drop 1 ?data)) = x" using l x(1) by simp
  have ySq: "(Exp x 3 ?p + 7) mod ?p = y\<^sup>2 mod ?p"
    using eq by (simp add: Exp_def mod_add_left_eq)
  have P1: "(?p + 1 - (?p + 1) mod 4) div 4 = (?p + 1) div 4"
    using assms(2) by presburger
  let ?y0 = "Exp (y\<^sup>2 mod ?p) ((?p + 1) div 4) ?p"
  have y0: "0 \<le> ?y0" "?y0 < ?p" using p1 by (simp_all add: Exp_def)
  have sq: "Exp ?y0 2 ?p = y\<^sup>2 mod ?p"
    using sqrt_exp [OF assms(1,2) y] by (simp add: Exp_def)
  then have "?y0\<^sup>2 mod ?p = y\<^sup>2 mod ?p" by (simp add: Exp_def)
  then have cases: "?y0 = y \<or> ?y0 = ?p - y"
    using square_roots [OF assms(1) y0 y] by simp
  have odd: "odd ?p" using assms(2) by presburger
  have res: "(if ?y0 mod 2 \<noteq> y mod 2 then ?p - ?y0 else ?y0) = y"
    using cases odd by presburger
  have "Unmarshal C ?data = Ok (Some (x, y))"
    unfolding Unmarshal_def Let_def
    using len assms(4) x0 res
    by (auto simp add: parity_byte_mask2 parity_byte_and1 ySq P1 sq simp del: One_nat_def
        split: if_splits)
  then show ?thesis using m len by blast
qed

subsection \<open>The group of the curve\<close>

lemma cg_wf: "curve_group C \<Longrightarrow> curve_wf C"
  unfolding curve_group_def by blast


lemma cg_assoc:
  "curve_group C \<Longrightarrow> valid_point C A \<Longrightarrow> valid_point C B \<Longrightarrow> valid_point C D \<Longrightarrow>
   Add C (Add C A B) D = Add C A (Add C B D)"
  unfolding curve_group_def by blast


lemma cg_ScalarMult:
  "curve_group C \<Longrightarrow> valid_point C A \<Longrightarrow> ScalarMult C A bs = smul C (nat (SetBytes bs mod N C)) A"
  unfolding curve_group_def by blast

lemma cg_ScalarBaseMult: "curve_group C \<Longrightarrow> ScalarBaseMult C bs = ScalarMult C (G C) bs"
  unfolding curve_group_def by blast

lemma cg_order: "curve_group C \<Longrightarrow> smul C (nat (N C)) (G C) = (0, 0)"
  unfolding curve_group_def by blast



lemma cg_G: "curve_group C \<Longrightarrow> valid_point C (G C)"
  unfolding curve_group_def valid_point_def by blast

lemma cg_params:
  assumes "curve_group C"
  shows "is_prime (P C)" "P C mod 4 = 3" "odd (N C)" "1 < N C" "N C < 2 ^ 256" "1 < P C"
    "P C < 2 ^ 256" "BitSize C = 256"
  using assms unfolding curve_group_def curve_wf_def by blast+


lemma smul_valid:
  assumes "curve_wf C" "valid_point C A"
  shows "valid_point C (smul C n A)"
  by (induction n) (simp_all add: curve_wf_Add [OF assms(1)] assms(2))

lemma smul_add:
  assumes g: "curve_group C" and A: "valid_point C A"
  shows "smul C (m + n) A = Add C (smul C m A) (smul C n A)"
proof (induction m)
  case 0
  show ?case
    using curve_wf_Add_0 [OF cg_wf [OF g] smul_valid [OF cg_wf [OF g] A]] by simp
next
  case (Suc m)
  have v: "valid_point C (smul C k A)" for k
    using cg_wf [OF g] A by (rule smul_valid)
  show ?case
    using Suc cg_assoc [OF g A v v, of m n] by simp
qed

lemma smul_zero_point:
  assumes "curve_wf C"
  shows "smul C n (0, 0) = (0, 0)"
  by (induction n) (simp_all add: curve_wf_Add_0 [OF assms])

lemma smul_mult:
  assumes g: "curve_group C" and A: "valid_point C A"
  shows "smul C (m * n) A = smul C m (smul C n A)"
proof (induction m)
  case 0
  show ?case by simp
next
  case (Suc m)
  have "smul C (Suc m * n) A = smul C (n + m * n) A" by simp
  also have "\<dots> = Add C (smul C n A) (smul C (m * n) A)" using g A by (rule smul_add)
  finally show ?case using Suc by simp
qed

lemma smul_mod_order:
  assumes g: "curve_group C"
  shows "smul C n (G C) = smul C (n mod nat (N C)) (G C)"
proof -
  let ?N = "nat (N C)"
  have v: "valid_point C (smul C k (G C))" for k
    using cg_wf [OF g] cg_G [OF g] by (rule smul_valid)
  have "smul C ((n div ?N) * ?N) (G C) = smul C (n div ?N) (smul C ?N (G C))"
    using g cg_G [OF g] by (rule smul_mult)
  also have "\<dots> = (0, 0)"
    by (simp add: cg_order [OF g] smul_zero_point [OF cg_wf [OF g]])
  finally have z: "smul C ((n div ?N) * ?N) (G C) = (0, 0)" .
  have "smul C n (G C) = smul C ((n div ?N) * ?N + n mod ?N) (G C)" by simp
  also have "\<dots> = Add C (smul C ((n div ?N) * ?N) (G C)) (smul C (n mod ?N) (G C))"
    using g cg_G [OF g] by (rule smul_add)
  also have "\<dots> = smul C (n mod ?N) (G C)"
    unfolding z using cg_wf [OF g] v by (rule curve_wf_Add_0)
  finally show ?thesis .
qed

lemma base_mult_nat:
  assumes g: "curve_group C"
  shows "smul C n (G C) = base_mult C (int n)"
proof -
  have n: "1 < N C" using g by (rule cg_params)
  have "nat (int n mod N C) = n mod nat (N C)"
    using n by (simp add: nat_mod_distrib)
  then show ?thesis unfolding base_mult_def using smul_mod_order [OF g, of n] by simp
qed

lemma base_mult_mod: "base_mult C (k mod N C) = base_mult C k"
  by (simp add: base_mult_def)


lemma base_mult_add:
  assumes g: "curve_group C"
  shows "Add C (base_mult C a) (base_mult C b) = base_mult C (a + b)"
proof -
  have n: "1 < N C" using g by (rule cg_params)
  let ?a = "nat (a mod N C)" and ?b = "nat (b mod N C)"
  have "Add C (base_mult C a) (base_mult C b) = smul C (?a + ?b) (G C)"
    unfolding base_mult_def using smul_add [OF g cg_G [OF g]] by simp
  also have "\<dots> = base_mult C (int (?a + ?b))" using g by (rule base_mult_nat)
  also have "int (?a + ?b) = a mod N C + b mod N C" using n by simp
  also have "base_mult C (a mod N C + b mod N C) = base_mult C ((a mod N C + b mod N C) mod N C)"
    by (simp only: base_mult_mod)
  also have "\<dots> = base_mult C (a + b)" by (simp add: mod_add_eq base_mult_mod)
  finally show ?thesis .
qed









lemma ScalarBaseMult_base_mult:
  assumes g: "curve_group C"
  shows "ScalarBaseMult C bs = base_mult C (SetBytes bs)"
  by (simp add: cg_ScalarBaseMult [OF g] cg_ScalarMult [OF g cg_G [OF g]] base_mult_def)








lemma ScalarBaseMult_GetBig:
  assumes g: "curve_group C" and k: "0 \<le> k" "k < N C"
  shows "ScalarBaseMult C (GetBigIntBytesImmutable k) = base_mult C k"
proof -
  have "k < 2 ^ 256" using k(2) cg_params(5) [OF g] by linarith
  then show ?thesis using k(1) by (simp add: ScalarBaseMult_base_mult [OF g] SetBytes_GetBig)
qed











text \<open>
  Two keys \<open>d\<close> and \<open>N - d\<close> have the point at infinity as their aggregate public key. On a
  curve without a point of abscissa \<open>0\<close>, as secp256k1 is, the encoding of \<open>(0, 0)\<close> does not
  decode, and \<^verbatim>\<open>Verify\<close> returns false on it for every message and signature.
\<close>

lemma Unmarshal_zero_abscissa:
  assumes "BitSize C = 256" and "1 < P C" and "\<forall>y. \<not> on_curve C (0, y)"
  shows "Unmarshal C (2 # replicate 32 0) = Ok None"
proof -
  let ?ySq = "(Exp 0 3 (P C) + 7) mod P C"
  let ?y0 = "Exp ?ySq ((P C + 1 - (P C + 1) mod 4) div 4) (P C)"
  have y0: "0 \<le> ?y0" "?y0 < P C" using assms(2) by (simp_all add: Exp_def)
  have "Exp ?y0 2 (P C) \<noteq> ?ySq"
  proof
    assume "Exp ?y0 2 (P C) = ?ySq"
    then have "?y0\<^sup>2 mod P C = (0 ^ 3 + 7) mod P C" by (simp add: Exp_def)
    then have "on_curve C (0, ?y0)" using y0 assms(2) by (simp add: on_curve_def)
    then show False using assms(3) by blast
  qed
  then show ?thesis
    using assms(1) by (simp add: Unmarshal_def Let_def)
qed

lemma Aggregate_opposite_keys:
  assumes g: "curve_group C" and z: "\<forall>y. \<not> on_curve C (0, y)"
    and d: "1 \<le> d" "d \<le> N C - 1"
  shows "Add C (ScalarBaseMult C (GetBigIntBytesImmutable d))
               (ScalarBaseMult C (GetBigIntBytesImmutable (N C - d))) = (0, 0)"
    and "Marshal C 0 0 = Ok (2 # replicate 32 0)"
    and "Verify C H (2 # replicate 32 0) m sig = Ok (False, Some PointDecodeError)"
proof -
  have b: "BitSize C = 256" and p: "1 < P C" using g by (rule cg_params)+
  have "ScalarBaseMult C (GetBigIntBytesImmutable d) = base_mult C d"
    using g by (rule ScalarBaseMult_GetBig) (use d in simp_all)
  moreover have "ScalarBaseMult C (GetBigIntBytesImmutable (N C - d)) = base_mult C (N C - d)"
    using g by (rule ScalarBaseMult_GetBig) (use d in simp_all)
  moreover have "Add C (base_mult C d) (base_mult C (N C - d)) = base_mult C (d + (N C - d))"
    using g by (rule base_mult_add)
  moreover have "base_mult C (d + (N C - d)) = (0, 0)" by (simp add: base_mult_def)
  ultimately show "Add C (ScalarBaseMult C (GetBigIntBytesImmutable d))
               (ScalarBaseMult C (GetBigIntBytesImmutable (N C - d))) = (0, 0)"
    by simp
  show "Marshal C 0 0 = Ok (2 # replicate 32 0)"
    using b by (simp add: Marshal_def Let_def Bytes_zero copy_go_def)
  show "Verify C H (2 # replicate 32 0) m sig = Ok (False, Some PointDecodeError)"
    using Unmarshal_zero_abscissa [OF b p z] by (simp add: Verify_def)
qed

text \<open>The arithmetic conditions of the contract, for the parameters of secp256k1.\<close>

lemma secp256k1_G_equation:
  "(55066263022277343669578718895168534326250603453777594175500187360389116729240 :: int) ^ 3 + 7 =
   (32670510020758816978083085130507043184471273380659243275938904335757337482424)\<^sup>2 +
   1442042049659660869506300006036683750029629333882594701370927246876626245108435922902327776681700708714008192087431130951749952236093997894375239788520937 *
   secp256k1_P"
  by (simp add: secp256k1_P_def power2_eq_square)

lemma S256_numbers:
  assumes "is_S256 C"
  shows "P C mod 4 = 3" "1 < P C" "P C < 2 ^ 256" "odd (N C)" "1 < N C" "N C < 2 ^ 256"
    "BitSize C = 256" "on_curve C (G C)"
proof -
  have p: "P C = secp256k1_P" and n: "N C = secp256k1_N" and g: "G C = secp256k1_G"
    using assms by (simp_all add: is_S256_def)
  show "P C mod 4 = 3" "1 < P C" "P C < 2 ^ 256" by (simp_all add: p secp256k1_P_def)
  show "odd (N C)" "1 < N C" "N C < 2 ^ 256" by (simp_all add: n secp256k1_N_def)
  show "BitSize C = 256" using assms by (simp add: is_S256_def)
  have "(snd secp256k1_G)\<^sup>2 mod secp256k1_P = ((fst secp256k1_G) ^ 3 + 7) mod secp256k1_P"
    unfolding secp256k1_G_def fst_conv snd_conv secp256k1_G_equation by simp
  moreover have "0 \<le> fst secp256k1_G \<and> fst secp256k1_G < secp256k1_P \<and>
      0 \<le> snd secp256k1_G \<and> snd secp256k1_G < secp256k1_P"
    by (simp add: secp256k1_G_def secp256k1_P_def)
  ultimately show "on_curve C (G C)" by (simp add: on_curve_def p g)
qed

subsection \<open>The small instance meets the contract\<close>

lemma toy_sel [simp]:
  "P toy_curve = 43" "N toy_curve = 31" "BitSize toy_curve = 256" "G toy_curve = (2, 12)"
  by (simp_all add: toy_curve_def)

lemma toy_ops:
  "Add toy_curve = toy_add"
  "ScalarMult toy_curve = (\<lambda>A bs. toy_mul (nat (SetBytes bs mod 31)) A)"
  "ScalarBaseMult toy_curve = (\<lambda>bs. toy_mul (nat (SetBytes bs mod 31)) (2, 12))"
  "IsOnCurve toy_curve = (\<lambda>x y. 0 \<le> x \<and> x < 43 \<and> 0 \<le> y \<and> y < 43 \<and> y\<^sup>2 mod 43 = (x ^ 3 + 7) mod 43)"
  by (simp_all add: toy_curve_def)

lemma toy_length [simp]: "length toy_table = 31"
  by (simp add: toy_table_def)



lemma toy_table_on_curve_all:
  "list_all (\<lambda>A. 0 \<le> fst A \<and> fst A < 43 \<and> 0 \<le> snd A \<and> snd A < 43 \<and>
      (A = (0, 0) \<or> (snd A)\<^sup>2 mod 43 = ((fst A) ^ 3 + 7) mod 43)) toy_table"
  by (simp add: toy_table_def)

lemma toy_table_valid: "A \<in> set toy_table \<Longrightarrow> valid_point toy_curve A"
  using toy_table_on_curve_all by (auto simp add: list_all_iff valid_point_def on_curve_def)

lemma toy_table_canonical: "A \<in> set toy_table \<Longrightarrow> (fst A mod 43, snd A mod 43) = A"
  using toy_table_on_curve_all by (auto simp add: list_all_iff)

lemma toy_points_all:
  "list_all (\<lambda>x. list_all (\<lambda>y. y\<^sup>2 mod 43 = (x ^ 3 + 7) mod 43 \<longrightarrow> (x, y) \<in> set toy_table) [0..42]) [0..42]"
  by code_simp

lemma toy_nth_mem: "j < 31 \<Longrightarrow> toy_table ! j \<in> set toy_table"
  by simp

lemma toy_on_curve_mem:
  assumes "on_curve toy_curve A"
  shows "A \<in> set toy_table"
proof -
  obtain x y where A: "A = (x, y)" by (cases A)
  have r: "0 \<le> x" "x < 43" "0 \<le> y" "y < 43" and e: "y\<^sup>2 mod 43 = (x ^ 3 + 7) mod 43"
    using assms by (simp_all add: on_curve_def A)
  have "x \<in> set [0..42]" "y \<in> set [0..42]" unfolding set_upto using r by simp_all
  then show ?thesis using toy_points_all e unfolding A list_all_iff by blast
qed

lemma toy_valid_mem: "valid_point toy_curve A \<Longrightarrow> A \<in> set toy_table"
proof -
  assume "valid_point toy_curve A"
  then have "A = (0, 0) \<or> on_curve toy_curve A" by (simp add: valid_point_def)
  moreover have "(0, 0) \<in> set toy_table" by (simp add: toy_table_def)
  ultimately show ?thesis using toy_on_curve_mem [of A] by blast
qed

lemma toy_valid_nth: "valid_point toy_curve A \<Longrightarrow> \<exists>j<31. A = toy_table ! j"
  using toy_valid_mem [of A] by (auto simp add: in_set_conv_nth)

lemma toy_add_nth_all:
  "list_all (\<lambda>i. list_all (\<lambda>j. toy_add (toy_table ! i) (toy_table ! j) = toy_table ! ((i + j) mod 31))
     [0..<31]) [0..<31]"
  by code_simp

lemma toy_add_nth:
  assumes "i < 31" "j < 31"
  shows "toy_add (toy_table ! i) (toy_table ! j) = toy_table ! ((i + j) mod 31)"
proof -
  have "i \<in> set [0..<31]" "j \<in> set [0..<31]" using assms by simp_all
  then show ?thesis using toy_add_nth_all unfolding list_all_iff by blast
qed


lemma toy_G [simp]: "toy_table ! Suc 0 = (2, 12)"
  by (simp add: toy_table_def)

lemma toy_zero [simp]: "toy_table ! 0 = (0, 0)"
  by (simp add: toy_table_def)





lemma toy_prime_all: "list_all (\<lambda>d. \<not> d dvd (43 :: int)) [2..42]"
  by code_simp

lemma toy_is_prime: "is_prime 43"
proof -
  have "\<forall>d\<in>{2..<43::int}. \<not> d dvd 43"
  proof
    fix d :: int assume "d \<in> {2..<43}"
    then have "d \<in> set [2..42]" unfolding set_upto by simp
    then show "\<not> d dvd 43" using toy_prime_all unfolding list_all_iff by blast
  qed
  then show ?thesis by (simp add: is_prime_def)
qed

lemma toy_curve_wf: "curve_wf toy_curve"
  unfolding curve_wf_def
proof (intro conjI allI impI)
  show "1 < P toy_curve" "P toy_curve < 2 ^ 256" "1 < N toy_curve" "N toy_curve < 2 ^ 256"
    "BitSize toy_curve = 256"
    by simp_all
next
  fix k show "valid_point toy_curve (ScalarBaseMult toy_curve k)"
    by (simp add: toy_ops toy_mul_def toy_table_valid)
next
  fix A k show "valid_point toy_curve (ScalarMult toy_curve A k)"
    by (simp add: toy_ops toy_mul_def toy_table_valid)
next
  fix A B assume "valid_point toy_curve A" "valid_point toy_curve B"
  then obtain i j where "i < 31" "A = toy_table ! i" "j < 31" "B = toy_table ! j"
    using toy_valid_nth by blast
  then show "valid_point toy_curve (Add toy_curve A B)"
    by (simp add: toy_ops toy_add_nth toy_table_valid)
next
  fix A assume "valid_point toy_curve A"
  then obtain j where j: "j < 31" "A = toy_table ! j" using toy_valid_nth by blast
  show "Add toy_curve (0, 0) A = A"
    using j toy_add_nth [of 0 j] by (simp add: toy_ops)
  show "Add toy_curve A (0, 0) = A"
    using j toy_add_nth [of j 0] by (simp add: toy_ops)
qed


subsection \<open>Running the operations on the small instance\<close>

lemma toy_log_G: "toy_log (2, 12) = 1"
  by code_simp

lemma toy_SBM_byte:
  "ScalarBaseMult toy_curve (replicate 31 0 @ [b]) = toy_table ! (nat (uint b mod 31) mod 31)"
  by (simp add: toy_ops toy_mul_def toy_log_G)


lemma toy_table_eval:
  "toy_table ! 1 = (2, 12)" "toy_table ! 2 = (7, 7)" "toy_table ! 3 = (35, 21)"
  "toy_table ! 4 = (21, 18)" "toy_table ! 5 = (12, 12)" "toy_table ! 7 = (25, 18)"
  "toy_table ! 10 = (42, 7)" "toy_table ! 15 = (38, 21)" "toy_table ! 16 = (38, 22)"
  "toy_table ! 26 = (12, 31)" "toy_table ! 30 = (2, 31)" "toy_table ! Suc (Suc 0) = (7, 7)"
  "toy_table ! 12 = (37, 36)" "toy_table ! 21 = (42, 36)"
  by (simp_all add: toy_table_def)

lemma toy_getDeterministicK: "getDeterministicK toy_curve toy_hash d m = Ok 5"
  by (simp add: getDeterministicK_def toy_hash_def Let_def)

lemma toy_MarshalCompressed:
  assumes "0 < x" "x < 43"
  shows "MarshalCompressed toy_curve x y = Ok ((of_int (y mod 2) OR 2) # replicate 31 0 @ [of_int x])"
  using assms by (simp add: MarshalCompressed_def Let_def Bytes_small)

lemma toy_getE:
  assumes "0 < x" "x < 43"
  shows "getE toy_curve toy_hash x y rX m = Ok 5"
  using assms by (simp add: getE_def toy_MarshalCompressed Let_def toy_hash_def)

lemma toy_Jacobi:
  "Jacobi 12 43 = - 1" "Jacobi 7 43 = - 1" "Jacobi 0 43 = 0" "Jacobi 21 43 = 1"
  "Jacobi 31 43 = 1" "Jacobi 32 43 = - 1" "Jacobi 37 43 = - 1"
  by (simp_all add: Jacobi_def Exp_def)

lemma toy_sign_eval:
  "Sign toy_curve toy_hash 3 (replicate 32 0) = Ok (replicate 31 0 @ [12] @ replicate 31 0 @ [10])"
  by (simp add: Sign_def Let_def toy_getDeterministicK toy_SBM_byte toy_table_eval toy_getE
      getK_def toy_Jacobi GetBig_small)

lemma toy_add_eval:
  "toy_add (0, 0) (toy_table ! j) = toy_table ! (j mod 31)" if "j < 31"
  using toy_add_nth [of 0 j] that by simp

lemma toy_Add_eval:
  "Add toy_curve (0, 0) (35, 21) = (35, 21)"
  "Add toy_curve (0, 0) (12, 12) = (12, 12)"
  "Add toy_curve (0, 0) (2, 12) = (2, 12)"
  "Add toy_curve (0, 0) (7, 7) = (7, 7)"
  "Add toy_curve (35, 21) (21, 18) = (25, 18)"
  "Add toy_curve (12, 12) (12, 12) = (42, 7)"
  "Add toy_curve (12, 12) (12, 31) = (0, 0)"
  "Add toy_curve (2, 12) (2, 31) = (0, 0)"
  "Add toy_curve (2, 12) (7, 7) = (35, 21)"
  "Add toy_curve (38, 22) (38, 21) = (0, 0)"
  "Add toy_curve (25, 18) (12, 12) = (37, 36)"
  "Add toy_curve (42, 7) (12, 12) = (38, 21)"
  using toy_add_nth [of 0 3] toy_add_nth [of 0 5] toy_add_nth [of 0 1] toy_add_nth [of 0 2]
    toy_add_nth [of 3 4] toy_add_nth [of 5 5] toy_add_nth [of 5 26] toy_add_nth [of 1 30]
    toy_add_nth [of 1 2] toy_add_nth [of 16 15] toy_add_nth [of 7 5] toy_add_nth [of 10 5]
  by (simp_all add: toy_ops toy_table_eval)

lemma toy_collect_eval:
  "agg_collect toy_curve toy_hash (replicate 32 0) [3, 4] ([], (0, 0), (0, 0)) =
     Ok ([5, 5], (25, 18), (42, 7))"
  by (simp add: Let_def toy_getDeterministicK GetBig_small toy_SBM_byte toy_table_eval toy_Add_eval)

lemma toy_aggregate_eval:
  "AggregateSignatures toy_curve toy_hash [3, 4] (replicate 32 0) =
     Ok (replicate 31 0 @ [42] @ replicate 31 0 @ [25])"
  by (simp add: AggregateSignatures_def toy_collect_eval Let_def toy_getE getK_def toy_Jacobi
      GetBig_small del: agg_collect.simps)




















text \<open>Three participants: the ordinate of the aggregate nonce point is a square.\<close>

lemma toy_collect_three:
  "agg_collect toy_curve toy_hash (replicate 32 0) [3, 4, 5] ([], (0, 0), (0, 0)) =
     Ok ([5, 5, 5], (37, 36), (38, 21))"
  by (simp add: Let_def toy_getDeterministicK GetBig_small toy_SBM_byte toy_table_eval toy_Add_eval)

lemma toy_aggregate_three:
  "AggregateSignatures toy_curve toy_hash [3, 4, 5] (replicate 32 0) =
     Ok (replicate 31 0 @ [38] @ replicate 31 0 @ [13])"
  by (simp add: AggregateSignatures_def toy_collect_three Let_def toy_getE getK_def toy_Jacobi
      GetBig_small del: agg_collect.simps)















section \<open>The claims\<close>

text \<open>
  The theorems that need the curve library hold for every curve that meets the contract,
  and every hash function. Their witnesses run the operations on the small instance, with
  the constant hash function, the key \<open>3\<close> (or a list of keys from \<open>3\<close> on) and the message
  of 32 zero bytes.
\<close>




text \<open>
  Claim C2. For every private key \<open>d\<close> in \<open>[1, N - 1]\<close> and 32-byte message \<open>m\<close> on which
  \<^verbatim>\<open>Sign\<close> succeeds, the signature has 64 bytes: the first 32 are \<open>Rx\<close>, big-endian and
  zero-padded, the last 32 are \<open>s = (k + e * d) mod N\<close>, where \<open>k0 = H(d \<parallel> m) mod N\<close>,
  \<open>(Rx, Ry) = k0 * G\<close>, \<open>k = k0\<close> if the Jacobi symbol of \<open>Ry\<close> is \<open>1\<close> and \<open>k = N - k0\<close>
  otherwise, and \<open>e = H(Rx \<parallel> compress(d * G) \<parallel> m) mod N\<close>.
\<close>

theorem Sign_signature:
  assumes "curve_wf C" and "1 \<le> d" and "d \<le> N C - 1" and "length m = 32"
    and "Sign C H d m = Ok sig"
  shows "\<exists>pk.
     (let k0 = nonce C H m d;
          R = ScalarBaseMult C (GetBigIntBytesImmutable k0);
          k = (if Jacobi (snd R) (P C) = 1 then k0 else N C - k0);
          Q = ScalarBaseMult C (GetBigIntBytesImmutable d);
          e = SetBytes (H (GetBigIntBytesImmutable (fst R) @ pk @ m)) mod N C
      in Marshal C (fst Q) (snd Q) = Ok pk \<and>
         length sig = 64 \<and>
         take 32 sig = GetBigIntBytesImmutable (fst R) \<and>
         SetBytes (take 32 sig) = fst R \<and>
         SetBytes (drop 32 sig) = (k + e * d) mod N C)"
  using assms by (rule Sign_Ok_form)

theorem Sign_signature_witness:
  "\<exists>pk.
     (let k0 = nonce toy_curve toy_hash (replicate 32 0) 3;
          R = ScalarBaseMult toy_curve (GetBigIntBytesImmutable k0);
          k = (if Jacobi (snd R) (P toy_curve) = 1 then k0 else N toy_curve - k0);
          Q = ScalarBaseMult toy_curve (GetBigIntBytesImmutable 3);
          e = SetBytes (toy_hash (GetBigIntBytesImmutable (fst R) @ pk @ (replicate 32 0))) mod N toy_curve
      in Marshal toy_curve (fst Q) (snd Q) = Ok pk \<and>
         length (replicate 31 0 @ [12] @ replicate 31 0 @ [10] :: byte list) = 64 \<and>
         take 32 (replicate 31 0 @ [12] @ replicate 31 0 @ [10]) = GetBigIntBytesImmutable (fst R) \<and>
         SetBytes (take 32 (replicate 31 0 @ [12] @ replicate 31 0 @ [10])) = fst R \<and>
         SetBytes (drop 32 (replicate 31 0 @ [12] @ replicate 31 0 @ [10])) = (k + e * 3) mod N toy_curve)"
  by (rule Sign_signature [OF toy_curve_wf _ _ _ toy_sign_eval]) simp_all




text \<open>
  Claim C4. For every point \<open>(x, y)\<close> of the curve, \<^verbatim>\<open>Marshal\<close> returns 33 bytes and
  \<^verbatim>\<open>Unmarshal\<close> of them returns \<open>(x, y)\<close>. The field order is taken to be a prime with
  \<open>P mod 4 = 3\<close> that fits the 256 bits of the curve.
\<close>

theorem Unmarshal_Marshal:
  assumes "is_prime (P C)" and "P C mod 4 = 3" and "P C < 2 ^ 256" and "BitSize C = 256"
    and "on_curve C (x, y)"
  shows "\<exists>data. Marshal C x y = Ok data \<and> length data = 33 \<and>
           Unmarshal C data = Ok (Some (x, y))"
  using assms by (rule decode_encode_on_curve)

theorem Unmarshal_Marshal_witness:
  "is_prime (P toy_curve) \<and> P toy_curve mod 4 = 3 \<and> on_curve toy_curve (35, 21) \<and>
   (\<exists>data. Marshal toy_curve 35 21 = Ok data \<and> length data = 33 \<and>
           Unmarshal toy_curve data = Ok (Some (35, 21)))"
  using toy_is_prime
  by (intro conjI Unmarshal_Marshal) (simp_all add: on_curve_def)

text \<open>
  Claim C5. The claim wants a failure value, and no crash, for every byte string of the
  wrong length, the empty one included. On the empty byte string \<^verbatim>\<open>Unmarshal\<close> panics:
  it reads \<^verbatim>\<open>data[0]\<close> before it compares the length.
\<close>

theorem Unmarshal_empty_panics: "Unmarshal C [] = Panic"
  by (simp add: Unmarshal_def)

text \<open>On every other such byte string it returns \<^verbatim>\<open>(nil, nil)\<close>.\<close>

lemma Unmarshal_rejects: "data \<noteq> [] \<Longrightarrow> BitSize C = 256 \<Longrightarrow> length data \<noteq> 33 \<or> (hd data \<noteq> 2 \<and> hd data \<noteq> 3) \<Longrightarrow> Unmarshal C data = Ok None"
  by (auto simp add: Unmarshal_def Let_def byte_and_mask)

text \<open>
  Claim C6. \<^verbatim>\<open>Sign\<close> fails with \<open>InvalidKeyRangeError\<close> for the private keys \<open>0\<close> and \<open>N\<close>,
  and it returns \<open>InvalidKeyRangeError\<close> exactly when the private key is outside
  \<open>[1, N - 1]\<close>.
\<close>

theorem Sign_key_range:
  "Sign C H 0 message = Err InvalidKeyRangeError \<and>
   Sign C H (N C) message = Err InvalidKeyRangeError \<and>
   (Sign C H privatekey message = Err InvalidKeyRangeError) = (privatekey < 1 \<or> privatekey > N C - 1)"
  by (auto simp add: Sign_def Let_def getE_not_Err split: result.splits dest: getDeterministicK_Err)

theorem Sign_key_range_witness:
  "Sign toy_curve toy_hash 0 (replicate 32 0) = Err InvalidKeyRangeError \<and>
   Sign toy_curve toy_hash (N toy_curve) (replicate 32 0) = Err InvalidKeyRangeError \<and>
   (Sign toy_curve toy_hash 3 (replicate 32 0) = Err InvalidKeyRangeError) = ((3 :: int) < 1 \<or> 3 > N toy_curve - 1)"
  by (rule Sign_key_range)





text \<open>
  Claim C8. When \<^verbatim>\<open>AggregateSignatures\<close> returns a signature (so the list of keys is not
  empty and every key is in range), its first 32 bytes are the abscissa of the aggregate
  \<open>R\<close>, the sum of the nonce points, and its last 32 bytes are \<open>s\<close>, the sum over the
  participants of \<open>k\<^sub>i + e * d\<^sub>i\<close> modulo \<open>N\<close>, where \<open>k\<^sub>i\<close> is \<open>k0\<^sub>i\<close> if the Jacobi symbol of
  the ordinate of the aggregate \<open>R\<close> is \<open>1\<close> and \<open>N - k0\<^sub>i\<close> otherwise, and \<open>e\<close> is computed
  once, from the aggregate \<open>R\<close> and the aggregate public key.
\<close>

theorem Aggregate_signature:
  assumes "curve_wf C" and "AggregateSignatures C H ds m = Ok sig"
  shows "\<exists>pk.
     (let R = sum_points C (map (\<lambda>d. ScalarBaseMult C (GetBigIntBytesImmutable (nonce C H m d))) ds);
          Q = sum_points C (map (\<lambda>d. ScalarBaseMult C (GetBigIntBytesImmutable d)) ds);
          e = SetBytes (H (GetBigIntBytesImmutable (fst R) @ pk @ m)) mod N C
      in Marshal C (fst Q) (snd Q) = Ok pk \<and>
         length sig = 64 \<and>
         take 32 sig = GetBigIntBytesImmutable (fst R) \<and>
         SetBytes (take 32 sig) = fst R \<and>
         SetBytes (drop 32 sig) =
           (\<Sum>d\<leftarrow>ds. (if Jacobi (snd R) (P C) = 1 then nonce C H m d else N C - nonce C H m d)
                   + e * d) mod N C)"
  using Aggregate_Ok_form [OF assms] unfolding agg_R_def agg_P_def agg_s_def .

theorem Aggregate_signature_witness:
  "(\<exists>pk.
     (let R = sum_points toy_curve (map (\<lambda>d. ScalarBaseMult toy_curve
                 (GetBigIntBytesImmutable (nonce toy_curve toy_hash (replicate 32 0) d))) [3, 4]);
          Q = sum_points toy_curve (map (\<lambda>d. ScalarBaseMult toy_curve (GetBigIntBytesImmutable d)) [3, 4]);
          e = SetBytes (toy_hash (GetBigIntBytesImmutable (fst R) @ pk @ (replicate 32 0))) mod N toy_curve
      in Marshal toy_curve (fst Q) (snd Q) = Ok pk \<and>
         length (replicate 31 0 @ [42] @ replicate 31 0 @ [25] :: byte list) = 64 \<and>
         take 32 (replicate 31 0 @ [42] @ replicate 31 0 @ [25]) = GetBigIntBytesImmutable (fst R) \<and>
         SetBytes (take 32 (replicate 31 0 @ [42] @ replicate 31 0 @ [25])) = fst R \<and>
         SetBytes (drop 32 (replicate 31 0 @ [42] @ replicate 31 0 @ [25])) =
           (\<Sum>d\<leftarrow>[3, 4]. (if Jacobi (snd R) (P toy_curve) = 1
                            then nonce toy_curve toy_hash (replicate 32 0) d
                            else N toy_curve - nonce toy_curve toy_hash (replicate 32 0) d)
                   + e * d) mod N toy_curve)) \<and>
   (\<exists>pk.
     (let R = sum_points toy_curve (map (\<lambda>d. ScalarBaseMult toy_curve
                 (GetBigIntBytesImmutable (nonce toy_curve toy_hash (replicate 32 0) d))) [3, 4, 5]);
          Q = sum_points toy_curve (map (\<lambda>d. ScalarBaseMult toy_curve (GetBigIntBytesImmutable d)) [3, 4, 5]);
          e = SetBytes (toy_hash (GetBigIntBytesImmutable (fst R) @ pk @ (replicate 32 0))) mod N toy_curve
      in Marshal toy_curve (fst Q) (snd Q) = Ok pk \<and>
         length (replicate 31 0 @ [38] @ replicate 31 0 @ [13] :: byte list) = 64 \<and>
         take 32 (replicate 31 0 @ [38] @ replicate 31 0 @ [13]) = GetBigIntBytesImmutable (fst R) \<and>
         SetBytes (take 32 (replicate 31 0 @ [38] @ replicate 31 0 @ [13])) = fst R \<and>
         SetBytes (drop 32 (replicate 31 0 @ [38] @ replicate 31 0 @ [13])) =
           (\<Sum>d\<leftarrow>[3, 4, 5]. (if Jacobi (snd R) (P toy_curve) = 1
                            then nonce toy_curve toy_hash (replicate 32 0) d
                            else N toy_curve - nonce toy_curve toy_hash (replicate 32 0) d)
                   + e * d) mod N toy_curve))"
  by (intro conjI Aggregate_signature [OF toy_curve_wf toy_aggregate_eval]
      Aggregate_signature [OF toy_curve_wf toy_aggregate_three])

text \<open>
  Claim C9. For every message, \<^verbatim>\<open>AggregateSignatures\<close> on the empty sequence of private
  keys fails with \<open>EmptyKeySetError\<close> and returns no signature.
\<close>

theorem AggregateSignatures_empty: "AggregateSignatures C H [] message = Err EmptyKeySetError"
  by (simp add: AggregateSignatures_def)

text \<open>
  Claim C10. For every private key \<open>d\<close> in \<open>[1, N - 1]\<close> and every message,
  \<^verbatim>\<open>AggregateSignatures\<close> on the one-element sequence \<open>[d]\<close> returns what \<^verbatim>\<open>Sign\<close> returns
  on \<open>d\<close>: the same signature or the same error.
\<close>

theorem Aggregate_single:
  assumes "curve_wf C" and "1 \<le> d" and "d \<le> N C - 1"
  shows "AggregateSignatures C H [d] m = Sign C H d m"
  using assms curve_wf_Add_0 [OF assms(1) curve_wf_SBM [OF assms(1)]]
  by (simp add: AggregateSignatures_def Sign_def Let_def getDeterministicK_nonce
      split: result.splits prod.splits)

theorem Aggregate_single_witness:
  "AggregateSignatures toy_curve toy_hash [3] (replicate 32 0) = Sign toy_curve toy_hash 3 (replicate 32 0)"
  by (rule Aggregate_single [OF toy_curve_wf]) simp_all

end
